theory Spec2Isabelle
  imports Main "HOL-Library.Word"
begin

section \<open>The simplelru cache (simplelru/lruImpl.go)\<close>

text \<open>
  The Go package keeps an index \<open>cache\<close> (a map from keys to \<open>*list.Element\<close>) and a
  recency list \<open>evictList\<close> (a \<open>container/list\<close> list whose elements carry an
  \<open>*entry\<close> in their \<open>Value\<close> field).  The embedding below follows the source function
  by function.

  \<^item> An \<open>interface{}\<close> value is an option: \<open>None\<close> is Go's \<open>nil\<close>.
  \<^item> A \<open>*list.Element\<close> is an optional address: \<open>None\<close> is the nil pointer.
  \<^item> Go's \<open>int\<close> and \<open>time.Duration\<close> are 64-bit two's complement words; arithmetic
    wraps and comparisons are signed.
  \<^item> A nil dereference or a failed type assertion is a run-time panic: the result
    \<open>Inl\<close> of an operation.
  \<^item> \<open>time.Now()\<close> is a parameter \<open>now\<close> of the operation that reads the clock.
  \<^item> The eviction callback is seen through its effects only: \<open>onEvicted\<close> tells
    whether the callback is non-nil and \<open>evictions\<close> lists the calls made, in order.
\<close>

subsection \<open>Data\<close>

type_synonym 'a iface = "'a option"

type_synonym element = "nat option"

type_synonym gint = "64 word"

datatype panic = NilDeref | BadAssert

record ('k, 'v) entry =
  key :: "'k iface"
  value' :: "'v iface"
  updatedAt :: int

text \<open>
  \<open>evictList\<close> holds the addresses of the linked elements, front first; an element
  \<open>e\<close> has \<open>e.list == l\<close> exactly when its address is in that list.  \<open>heap\<close> gives
  the \<open>Value\<close> field of every element that holds an \<open>*entry\<close>.
\<close>

record ('k, 'v) LRU =
  size' :: gint
  ttl :: gint
  cache :: "'k iface \<rightharpoonup> element"
  evictList :: "nat list"
  heap :: "nat \<rightharpoonup> ('k, 'v) entry"
  onEvicted :: bool
  evictions :: "('k iface \<times> 'v iface) list"

definition NoLimitSize :: gint where
  "NoLimitSize = 0"

definition NoLimitTTL :: gint where
  "NoLimitTTL = 0"

subsection \<open>The operations of container/list that the cache calls\<close>

text \<open>\<open>l.Len()\<close>.\<close>

definition ListLen :: "nat list \<Rightarrow> gint" where
  "ListLen l = of_nat (length l)"

text \<open>\<open>l.Back()\<close>: nil on the empty list, the last element otherwise.\<close>

definition Back :: "nat list \<Rightarrow> element" where
  "Back l = (if l = [] then None else Some (last l))"

text \<open>
  \<open>l.MoveToFront(e)\<close> reads \<open>e.list\<close> first, so a nil \<open>e\<close> panics; an element of
  another list, or the front element, leaves the list as it is.
\<close>

definition MoveToFront :: "nat list \<Rightarrow> element \<Rightarrow> panic + nat list" where
  "MoveToFront l e =
     (case e of
        None \<Rightarrow> Inl NilDeref
      | Some a \<Rightarrow> Inr (if a \<in> set l \<and> hd l \<noteq> a then a # remove1 a l else l))"

text \<open>\<open>l.Remove(e)\<close> reads \<open>e.list\<close> too; it unlinks \<open>e\<close> when \<open>e\<close> is in \<open>l\<close>.\<close>

definition ListRemove :: "nat list \<Rightarrow> element \<Rightarrow> panic + nat list" where
  "ListRemove l e =
     (case e of
        None \<Rightarrow> Inl NilDeref
      | Some a \<Rightarrow> Inr (remove1 a l))"

text \<open>\<open>item.Value.(*entry)\<close>: dereferences \<open>item\<close>, then asserts the type.\<close>

definition entryOf :: "('k, 'v) LRU \<Rightarrow> element \<Rightarrow> panic + ('k, 'v) entry" where
  "entryOf c item =
     (case item of
        None \<Rightarrow> Inl NilDeref
      | Some a \<Rightarrow> (case heap c a of None \<Rightarrow> Inl BadAssert | Some kv \<Rightarrow> Inr kv))"

text \<open>
  \<open>time.Since(t)\<close> is a \<open>Duration\<close>, which saturates at the ends of the 64-bit range.
\<close>

definition Since :: "int \<Rightarrow> int \<Rightarrow> int" where
  "Since now t = max (- (2 ^ 63)) (min (2 ^ 63 - 1) (now - t))"

subsection \<open>The cache\<close>

definition NewLRU :: "gint \<Rightarrow> gint \<Rightarrow> bool \<Rightarrow> ('k, 'v) LRU" where
  "NewLRU sz t onEvict =
     \<lparr> size' = (if sz \<le>s NoLimitSize then NoLimitSize else sz),
       ttl = (if t \<le>s NoLimitTTL then NoLimitTTL else t),
       cache = Map.empty,
       evictList = [],
       heap = Map.empty,
       onEvicted = onEvict,
       evictions = [] \<rparr>"

definition Len :: "('k, 'v) LRU \<Rightarrow> gint" where
  "Len c = ListLen (evictList c)"

definition expired :: "('k, 'v) LRU \<Rightarrow> 'k iface \<Rightarrow> int \<Rightarrow> panic + bool" where
  "expired c k now =
     (if ttl c = NoLimitTTL then Inr False
      else
        (case cache c k of
           Some item \<Rightarrow>
             (case entryOf c item of
                Inl p \<Rightarrow> Inl p
              | Inr kv \<Rightarrow>
                  if Since now (updatedAt kv) \<le> sint (ttl c) then Inr False else Inr True)
         | None \<Rightarrow> Inr True))"

definition removeElement :: "('k, 'v) LRU \<Rightarrow> element \<Rightarrow> panic + ('k, 'v) LRU" where
  "removeElement c e =
     (case ListRemove (evictList c) e of
        Inl p \<Rightarrow> Inl p
      | Inr l \<Rightarrow>
          (case entryOf c e of
             Inl p \<Rightarrow> Inl p
           | Inr kv \<Rightarrow>
               Inr (c\<lparr> evictList := l,
                       cache := (cache c)(key kv := None),
                       evictions :=
                         (if onEvicted c then evictions c @ [(key kv, value' kv)]
                          else evictions c) \<rparr>)))"

definition removeOldest :: "('k, 'v) LRU \<Rightarrow> panic + ('k, 'v) LRU" where
  "removeOldest c =
     (case Back (evictList c) of
        Some a \<Rightarrow> removeElement c (Some a)
      | None \<Rightarrow> Inr c)"

text \<open>
  The capacity test of \<open>Set\<close>:
  \<open>c.size != NoLimitSize && c.evictList.Len() > c.size\<close>.
\<close>

definition overSize :: "('k, 'v) LRU \<Rightarrow> bool" where
  "overSize c = (size' c \<noteq> NoLimitSize \<and> size' c <s Len c)"

text \<open>
  \<open>Set\<close>.  In the branch of a key that is not indexed, \<open>item\<close> is the zero value
  of the failed lookup, the nil pointer: the source stores it in the index and pushes
  nothing on the list.
\<close>

definition Set :: "('k, 'v) LRU \<Rightarrow> 'k iface \<Rightarrow> 'v iface \<Rightarrow> int \<Rightarrow> panic + ('k, 'v) LRU" where
  "Set c k v now =
     (if k = None \<or> v = None then Inr c
      else
        (let e = \<lparr> key = k, value' = v, updatedAt = now \<rparr> in
         case
           (case cache c k of
              Some item \<Rightarrow>
                (case item of
                   None \<Rightarrow> Inl NilDeref
                 | Some a \<Rightarrow>
                     (case MoveToFront (evictList c) item of
                        Inl p \<Rightarrow> Inl p
                      | Inr l \<Rightarrow> Inr (c\<lparr> heap := (heap c)(a \<mapsto> e), evictList := l \<rparr>)))
            | None \<Rightarrow> Inr (c\<lparr> cache := (cache c)(k \<mapsto> None) \<rparr>))
         of
           Inl p \<Rightarrow> Inl p
         | Inr c1 \<Rightarrow> if overSize c1 then removeOldest c1 else Inr c1))"

definition Get ::
  "('k, 'v) LRU \<Rightarrow> 'k iface \<Rightarrow> int \<Rightarrow> panic + (('k, 'v) LRU \<times> 'v iface \<times> bool)" where
  "Get c k now =
     (case cache c k of
        None \<Rightarrow> Inr (c, None, False)
      | Some item \<Rightarrow>
          (case expired c k now of
             Inl p \<Rightarrow> Inl p
           | Inr True \<Rightarrow> Inr (c, None, False)
           | Inr False \<Rightarrow>
               (case MoveToFront (evictList c) item of
                  Inl p \<Rightarrow> Inl p
                | Inr l \<Rightarrow>
                    (case entryOf c item of
                       Inl p \<Rightarrow> Inl p
                     | Inr kv \<Rightarrow>
                         if value' kv = None then Inr (c\<lparr> evictList := l \<rparr>, None, False)
                         else Inr (c\<lparr> evictList := l \<rparr>, value' kv, True)))))"

definition Contains :: "('k, 'v) LRU \<Rightarrow> 'k iface \<Rightarrow> int \<Rightarrow> panic + bool" where
  "Contains c k now =
     (case cache c k of
        None \<Rightarrow> Inr False
      | Some item \<Rightarrow>
          (case expired c k now of
             Inl p \<Rightarrow> Inl p
           | Inr b \<Rightarrow> Inr (\<not> b)))"

text \<open>
  \<open>Peek\<close> assigns the named result \<open>ok\<close> in the lookup, so its last line
  \<open>return nil, ok\<close> returns the lookup's \<open>ok\<close>.
\<close>

definition Peek :: "('k, 'v) LRU \<Rightarrow> 'k iface \<Rightarrow> int \<Rightarrow> panic + ('v iface \<times> bool)" where
  "Peek c k now =
     (case cache c k of
        None \<Rightarrow> Inr (None, False)
      | Some item \<Rightarrow>
          (case expired c k now of
             Inl p \<Rightarrow> Inl p
           | Inr True \<Rightarrow> Inr (None, True)
           | Inr False \<Rightarrow>
               (case entryOf c item of
                  Inl p \<Rightarrow> Inl p
                | Inr kv \<Rightarrow> Inr (value' kv, True))))"

definition Remove :: "('k, 'v) LRU \<Rightarrow> 'k iface \<Rightarrow> panic + (('k, 'v) LRU \<times> bool)" where
  "Remove c k =
     (case cache c k of
        Some item \<Rightarrow>
          (case removeElement c item of
             Inl p \<Rightarrow> Inl p
           | Inr c1 \<Rightarrow> Inr (c1, True))
      | None \<Rightarrow> Inr (c, False))"

definition RemoveOldest ::
  "('k, 'v) LRU \<Rightarrow> panic + (('k, 'v) LRU \<times> 'k iface \<times> 'v iface \<times> bool)" where
  "RemoveOldest c =
     (case Back (evictList c) of
        Some a \<Rightarrow>
          (case removeElement c (Some a) of
             Inl p \<Rightarrow> Inl p
           | Inr c1 \<Rightarrow>
               (case entryOf c1 (Some a) of
                  Inl p \<Rightarrow> Inl p
                | Inr kv \<Rightarrow> Inr (c1, key kv, value' kv, True)))
      | None \<Rightarrow> Inr (c, None, None, False))"

text \<open>
  The loop of \<open>Keys\<close> starts at \<open>Back()\<close> and follows \<open>Prev()\<close>: it visits the
  reversed list.  \<open>keysLoop\<close> takes the elements still to visit and the keys
  appended so far.
\<close>

fun keysLoop ::
  "('k, 'v) LRU \<Rightarrow> int \<Rightarrow> nat list \<Rightarrow> 'k iface list \<Rightarrow> panic + 'k iface list" where
  "keysLoop c now [] keys = Inr keys"
| "keysLoop c now (a # rest) keys =
     (case entryOf c (Some a) of
        Inl p \<Rightarrow> Inl p
      | Inr kv \<Rightarrow>
          (case expired c (key kv) now of
             Inl p \<Rightarrow> Inl p
           | Inr True \<Rightarrow> Inr keys
           | Inr False \<Rightarrow> keysLoop c now rest (keys @ [key kv])))"

definition Keys :: "('k, 'v) LRU \<Rightarrow> int \<Rightarrow> panic + 'k iface list" where
  "Keys c now = keysLoop c now (rev (evictList c)) []"

text \<open>
  \<open>Purge\<close> ranges over the index.  Go leaves the order of a map range open, so the
  order \<open>ks\<close> in which the keys are visited is a parameter; a key that is no longer
  in the map is not visited.
\<close>

fun purgeLoop :: "('k, 'v) LRU \<Rightarrow> 'k iface list \<Rightarrow> panic + ('k, 'v) LRU" where
  "purgeLoop c [] = Inr c"
| "purgeLoop c (k # ks) =
     (case cache c k of
        None \<Rightarrow> purgeLoop c ks
      | Some v \<Rightarrow>
          if onEvicted c then
            (case entryOf c v of
               Inl p \<Rightarrow> Inl p
             | Inr kv \<Rightarrow>
                 purgeLoop (c\<lparr> evictions := evictions c @ [(k, value' kv)],
                               cache := (cache c)(k := None) \<rparr>) ks)
          else purgeLoop (c\<lparr> cache := (cache c)(k := None) \<rparr>) ks)"

definition Purge :: "('k, 'v) LRU \<Rightarrow> 'k iface list \<Rightarrow> panic + ('k, 'v) LRU" where
  "Purge c ks =
     (case purgeLoop c ks of
        Inl p \<Rightarrow> Inl p
      | Inr c1 \<Rightarrow> Inr (c1\<lparr> evictList := [] \<rparr>))"

text \<open>The loop of \<open>Resize\<close>: \<open>removeOldest\<close>, \<open>n\<close> times.\<close>

fun removeOldestN :: "nat \<Rightarrow> ('k, 'v) LRU \<Rightarrow> panic + ('k, 'v) LRU" where
  "removeOldestN 0 c = Inr c"
| "removeOldestN (Suc n) c =
     (case removeOldest c of
        Inl p \<Rightarrow> Inl p
      | Inr c1 \<Rightarrow> removeOldestN n c1)"

definition Resize :: "('k, 'v) LRU \<Rightarrow> gint \<Rightarrow> panic + (('k, 'v) LRU \<times> gint)" where
  "Resize c sz =
     (let d = Len c - sz;
          diff = (if d <s 0 then 0 else d)
      in case removeOldestN (nat (sint diff)) c of
           Inl p \<Rightarrow> Inl p
         | Inr c1 \<Rightarrow> Inr (c1\<lparr> size' := sz \<rparr>, diff))"

subsection \<open>States the public operations can reach\<close>

text \<open>
  A state is reachable when a sequence of public operations, each of which returned,
  leads to it from \<open>NewLRU\<close>.  \<open>Contains\<close>, \<open>Peek\<close>, \<open>Len\<close> and \<open>Keys\<close> change
  nothing and need no rule.  \<open>Purge\<close> may visit the keys of the index in any order.
\<close>

inductive reachable :: "('k, 'v) LRU \<Rightarrow> bool" where
  r_new: "reachable (NewLRU sz t onEvict)"
| r_set: "reachable c \<Longrightarrow> Set c k v now = Inr c1 \<Longrightarrow> reachable c1"
| r_get: "reachable c \<Longrightarrow> Get c k now = Inr (c1, r) \<Longrightarrow> reachable c1"
| r_remove: "reachable c \<Longrightarrow> Remove c k = Inr (c1, b) \<Longrightarrow> reachable c1"
| r_removeOldest: "reachable c \<Longrightarrow> RemoveOldest c = Inr (c1, r) \<Longrightarrow> reachable c1"
| r_purge:
    "reachable c \<Longrightarrow> set ks = dom (cache c) \<Longrightarrow> distinct ks \<Longrightarrow> Purge c ks = Inr c1 \<Longrightarrow>
     reachable c1"
| r_resize: "reachable c \<Longrightarrow> Resize c sz = Inr (c1, n) \<Longrightarrow> reachable c1"

text \<open>
  What every reachable state turns out to look like: nothing is linked in the recency
  list, no element holds an entry, every indexed key maps to the nil pointer and the
  callback was never called.
\<close>

definition unlinked :: "('k, 'v) LRU \<Rightarrow> bool" where
  "unlinked c =
     (evictList c = [] \<and> heap c = Map.empty \<and> evictions c = [] \<and>
      ran (cache c) \<subseteq> {None})"

text \<open>
  What the intended cache keeps: the linked elements are distinct, fewer than \<open>2 ^ 63\<close>,
  and each holds an entry.
\<close>

definition listOK :: "('k, 'v) LRU \<Rightarrow> bool" where
  "listOK c =
     (distinct (evictList c) \<and> length (evictList c) < 2 ^ 63 \<and>
      set (evictList c) \<subseteq> dom (heap c))"

subsection \<open>Notions the properties are stated with\<close>

text \<open>The state right after the first \<open>Set\<close> of a key on a new cache.\<close>

abbreviation afterSet :: "gint \<Rightarrow> gint \<Rightarrow> bool \<Rightarrow> 'k \<Rightarrow> ('k, 'v) LRU" where
  "afterSet sz t cb k \<equiv> (NewLRU sz t cb)\<lparr> cache := [Some k \<mapsto> None] \<rparr>"

text \<open>
  The test \<open>expired\<close> makes on an entry it found: the TTL is bounded and the time
  since \<open>updatedAt\<close> is more than the TTL.
\<close>

definition stale :: "('k, 'v) LRU \<Rightarrow> int \<Rightarrow> ('k, 'v) entry \<Rightarrow> bool" where
  "stale c now kv = (ttl c \<noteq> NoLimitTTL \<and> sint (ttl c) < Since now (updatedAt kv))"

text \<open>
  \<open>es\<close> lists the entries of the linked elements, front first, and the index maps
  the key of each entry to the element that holds it.
\<close>

definition linkedEntries :: "('k, 'v) LRU \<Rightarrow> ('k, 'v) entry list \<Rightarrow> bool" where
  "linkedEntries c es =
     list_all2 (\<lambda>a kv. heap c a = Some kv \<and> cache c (key kv) = Some (Some a)) (evictList c) es"

text \<open>The arguments \<open>removeElement\<close> passes to the callback for the element at \<open>a\<close>.\<close>

definition evictedPair :: "('k, 'v) LRU \<Rightarrow> nat \<Rightarrow> 'k iface \<times> 'v iface" where
  "evictedPair c a = (case heap c a of Some kv \<Rightarrow> (key kv, value' kv) | None \<Rightarrow> (None, None))"

text \<open>
  A state with linked entries, as a \<open>Set\<close> that pushed its entry on the list would
  leave it: TTL 50, \<open>Set(2, "b")\<close> at time 0, \<open>Set(1, "a")\<close> at 40, \<open>Get(2)\<close> at 41,
  \<open>Set(3, "c")\<close> at 45.  The front of the list is the element at address 30, the back
  the one at address 10.
\<close>

definition linkedExample :: "(nat, string) LRU" where
  "linkedExample =
     \<lparr> size' = 3,
       ttl = 50,
       cache = [Some 1 \<mapsto> Some 10, Some 2 \<mapsto> Some 20, Some 3 \<mapsto> Some 30],
       evictList = [30, 20, 10],
       heap = [10 \<mapsto> \<lparr> key = Some 1, value' = Some ''a'', updatedAt = 40 \<rparr>,
               20 \<mapsto> \<lparr> key = Some 2, value' = Some ''b'', updatedAt = 0 \<rparr>,
               30 \<mapsto> \<lparr> key = Some 3, value' = Some ''c'', updatedAt = 45 \<rparr>],
       onEvicted = True,
       evictions = [] \<rparr>"

section \<open>Properties\<close>

subsection \<open>An empty list, and an index of nil pointers\<close>

lemma removeOldest_empty: "evictList c = [] \<Longrightarrow> removeOldest c = Inr c"
  by (simp add: removeOldest_def Back_def)

lemma removeOldestN_empty: "evictList c = [] \<Longrightarrow> removeOldestN n c = Inr c"
  by (induction n) (simp_all add: removeOldest_empty)

lemma Set_absent:
  "k \<noteq> None \<Longrightarrow> v \<noteq> None \<Longrightarrow> cache c k = None \<Longrightarrow> evictList c = [] \<Longrightarrow>
   Set c k v now = Inr (c\<lparr> cache := (cache c)(k \<mapsto> None) \<rparr>)"
  by (auto simp add: Set_def removeOldest_empty)

lemma Set_nil_item:
  "k \<noteq> None \<Longrightarrow> v \<noteq> None \<Longrightarrow> cache c k = Some None \<Longrightarrow> Set c k v now = Inl NilDeref"
  by (simp add: Set_def)

lemma expired_nil_item:
  "cache c k = Some None \<Longrightarrow>
   expired c k now = (if ttl c = NoLimitTTL then Inr False else Inl NilDeref)"
  by (simp add: expired_def entryOf_def)

lemma Get_nil_item: "cache c k = Some None \<Longrightarrow> Get c k now = Inl NilDeref"
  by (simp add: Get_def expired_nil_item MoveToFront_def)

lemma Peek_nil_item: "cache c k = Some None \<Longrightarrow> Peek c k now = Inl NilDeref"
  by (simp add: Peek_def expired_nil_item entryOf_def)

lemma Contains_nil_item:
  "cache c k = Some None \<Longrightarrow>
   Contains c k now = (if ttl c = NoLimitTTL then Inr True else Inl NilDeref)"
  by (simp add: Contains_def expired_nil_item)

lemma Remove_nil_item: "cache c k = Some None \<Longrightarrow> Remove c k = Inl NilDeref"
  by (simp add: Remove_def removeElement_def ListRemove_def)

lemma NewLRU_fields [simp]:
  "cache (NewLRU sz t cb) = Map.empty"
  "evictList (NewLRU sz t cb) = []"
  "heap (NewLRU sz t cb) = Map.empty"
  "onEvicted (NewLRU sz t cb) = cb"
  "evictions (NewLRU sz t cb) = []"
  by (simp_all add: NewLRU_def)

subsection \<open>Every reachable state is unlinked\<close>

lemma unlinked_item: "unlinked c \<Longrightarrow> cache c k = Some item \<Longrightarrow> item = None"
  by (auto simp add: unlinked_def ran_def)

lemma unlinked_NewLRU: "unlinked (NewLRU sz t cb)"
  by (simp add: unlinked_def)

lemma unlinked_Set: "unlinked c \<Longrightarrow> Set c k v now = Inr c1 \<Longrightarrow> unlinked c1"
proof -
  assume u: "unlinked c" and s: "Set c k v now = Inr c1"
  show ?thesis
  proof (cases "k = None \<or> v = None")
    case True
    with s u show ?thesis by (simp add: Set_def)
  next
    case False
    then have kv: "k \<noteq> None" "v \<noteq> None" by simp_all
    show ?thesis
    proof (cases "cache c k")
      case None
      from u have "evictList c = []" by (simp add: unlinked_def)
      with kv None s have "c1 = c\<lparr> cache := (cache c)(k \<mapsto> None) \<rparr>"
        by (simp add: Set_absent)
      with u show ?thesis
        by (auto simp add: unlinked_def ran_def split: if_splits)
    next
      case (Some item)
      with u have "cache c k = Some None" by (simp add: unlinked_item)
      with kv s show ?thesis by (simp add: Set_nil_item)
    qed
  qed
qed

lemma unlinked_Get: "unlinked c \<Longrightarrow> Get c k now = Inr (c1, r) \<Longrightarrow> unlinked c1"
proof (cases "cache c k")
  case None
  assume "unlinked c" "Get c k now = Inr (c1, r)"
  with None show ?thesis by (simp add: Get_def)
next
  case (Some item)
  assume u: "unlinked c" and g: "Get c k now = Inr (c1, r)"
  from u Some have "cache c k = Some None" by (simp add: unlinked_item)
  with g show ?thesis by (simp add: Get_nil_item)
qed

lemma unlinked_Remove: "unlinked c \<Longrightarrow> Remove c k = Inr (c1, b) \<Longrightarrow> unlinked c1"
proof (cases "cache c k")
  case None
  assume "unlinked c" "Remove c k = Inr (c1, b)"
  with None show ?thesis by (simp add: Remove_def)
next
  case (Some item)
  assume u: "unlinked c" and g: "Remove c k = Inr (c1, b)"
  from u Some have "cache c k = Some None" by (simp add: unlinked_item)
  with g show ?thesis by (simp add: Remove_nil_item)
qed

lemma unlinked_RemoveOldest: "unlinked c \<Longrightarrow> RemoveOldest c = Inr (c1, r) \<Longrightarrow> unlinked c1"
  by (simp add: RemoveOldest_def unlinked_def Back_def)

lemma unlinked_purgeLoop: "unlinked c \<Longrightarrow> purgeLoop c ks = Inr c1 \<Longrightarrow> unlinked c1"
proof (induction ks arbitrary: c)
  case Nil
  then show ?case by simp
next
  case (Cons k ks)
  show ?case
  proof (cases "cache c k")
    case None
    with Cons show ?thesis by simp
  next
    case (Some item)
    with Cons.prems have nil: "cache c k = Some None" by (simp add: unlinked_item)
    show ?thesis
    proof (cases "onEvicted c")
      case True
      with nil Cons.prems show ?thesis by (simp add: entryOf_def)
    next
      case False
      from Cons.prems(1) have "unlinked (c\<lparr> cache := (cache c)(k := None) \<rparr>)"
        by (auto simp add: unlinked_def ran_def split: if_splits)
      moreover from False nil Cons.prems(2)
      have "purgeLoop (c\<lparr> cache := (cache c)(k := None) \<rparr>) ks = Inr c1" by simp
      ultimately show ?thesis by (rule Cons.IH)
    qed
  qed
qed

lemma unlinked_Purge: "unlinked c \<Longrightarrow> Purge c ks = Inr c1 \<Longrightarrow> unlinked c1"
  by (auto simp add: Purge_def unlinked_def split: sum.splits dest!: unlinked_purgeLoop[rotated])

lemma unlinked_Resize: "unlinked c \<Longrightarrow> Resize c sz = Inr (c1, n) \<Longrightarrow> unlinked c1"
  by (auto simp add: Resize_def Let_def unlinked_def removeOldestN_empty)

lemma reachable_unlinked: "reachable c \<Longrightarrow> unlinked c"
proof (induction rule: reachable.induct)
  case (r_new sz t onEvict)
  show ?case by (rule unlinked_NewLRU)
next
  case (r_set c k v now c1)
  then show ?case by (blast intro: unlinked_Set)
next
  case (r_get c k now c1 r)
  then show ?case by (blast intro: unlinked_Get)
next
  case (r_remove c k c1 b)
  then show ?case by (blast intro: unlinked_Remove)
next
  case (r_removeOldest c c1 r)
  then show ?case by (blast intro: unlinked_RemoveOldest)
next
  case (r_purge c ks c1)
  then show ?case by (blast intro: unlinked_Purge)
next
  case (r_resize c sz c1 n)
  then show ?case by (blast intro: unlinked_Resize)
qed

text \<open>
  So in a reachable state the list is empty, and looking up a key that is in the index
  ends in a nil dereference.
\<close>

lemma reachable_indexed_panics:
  assumes "reachable c" and "cache c k = Some item"
  shows "Get c k now = Inl NilDeref" and "Peek c k now = Inl NilDeref"
    and "Remove c k = Inl NilDeref"
proof -
  from assms(1) have "unlinked c" by (rule reachable_unlinked)
  then have "item = None" using assms(2) by (rule unlinked_item)
  with assms(2) have "cache c k = Some None" by simp
  then show "Get c k now = Inl NilDeref" and "Peek c k now = Inl NilDeref"
    and "Remove c k = Inl NilDeref"
    by (simp_all add: Get_nil_item Peek_nil_item Remove_nil_item)
qed

lemma reachable_Len: "reachable c \<Longrightarrow> Len c = 0"
  by (auto dest: reachable_unlinked simp add: unlinked_def Len_def ListLen_def)

lemma reachable_Keys: "reachable c \<Longrightarrow> Keys c now = Inr []"
  by (auto dest: reachable_unlinked simp add: unlinked_def Keys_def)

subsection \<open>Set with a nil key or a nil value\<close>

text \<open>
  C9.  For every cache state, \<open>Set\<close> with a nil key or a nil value returns without a
  panic and leaves the whole state as it was: index, recency list, capacity, TTL,
  stored entries and the list of callback calls (so no eviction callback fires).
\<close>

theorem Set_nil_noop: "k = None \<or> v = None \<Longrightarrow> Set c k v now = Inr c"
  by (auto simp add: Set_def)

theorem Set_nil_noop_witness:
  "Set (NewLRU 2 0 True :: (nat, string) LRU) None (Some ''a'') 7 = Inr (NewLRU 2 0 True) \<and>
   Set (NewLRU 2 0 True :: (nat, string) LRU) (Some 1) None 7 = Inr (NewLRU 2 0 True)"
  using Set_nil_noop [of None "Some ''a''" "NewLRU 2 0 True :: (nat, string) LRU" 7]
    Set_nil_noop [of "Some 1" None "NewLRU 2 0 True :: (nat, string) LRU" 7]
  by simp

subsection \<open>The first Set of a key\<close>

text \<open>
  C1.  The claim: after \<open>Set(k, v)\<close> with non-nil \<open>k\<close> and \<open>v\<close>, \<open>Get(k)\<close> returns
  \<open>(v, true)\<close>, and \<open>Set\<close> of an absent key puts the entry at the front of the
  recency list.  On a new cache of any capacity, TTL and callback the source does
  otherwise: \<open>Set\<close> stores the nil pointer in the index and leaves the list empty, and
  the \<open>Get\<close> that follows dereferences that nil pointer.
\<close>

theorem Set_then_Get_panics:
  "Set (NewLRU sz t cb :: ('k, 'v) LRU) (Some k) (Some v) now = Inr (afterSet sz t cb k) \<and>
   cache (afterSet sz t cb k :: ('k, 'v) LRU) (Some k) = Some None \<and>
   evictList (afterSet sz t cb k :: ('k, 'v) LRU) = [] \<and>
   Get (afterSet sz t cb k :: ('k, 'v) LRU) (Some k) now1 = Inl NilDeref"
  by (simp add: Set_absent Get_nil_item)

text \<open>
  C2.  The claim: no public operation panics in a reachable state.  In the state that
  one \<open>Set\<close> on a new cache reaches, a second \<open>Set\<close> of the key, \<open>Get\<close>, \<open>Peek\<close>
  and \<open>Remove\<close> panic, \<open>Contains\<close> panics when the TTL is bounded, and \<open>Purge\<close> panics
  when a callback is installed.
\<close>

theorem operations_panic_after_Set:
  "Set (NewLRU sz t cb :: ('k, 'v) LRU) (Some k) (Some v) now = Inr (afterSet sz t cb k) \<and>
   Set (afterSet sz t cb k :: ('k, 'v) LRU) (Some k) (Some w) now1 = Inl NilDeref \<and>
   Get (afterSet sz t cb k :: ('k, 'v) LRU) (Some k) now1 = Inl NilDeref \<and>
   Peek (afterSet sz t cb k :: ('k, 'v) LRU) (Some k) now1 = Inl NilDeref \<and>
   Remove (afterSet sz t cb k :: ('k, 'v) LRU) (Some k) = Inl NilDeref \<and>
   Contains (afterSet sz 5 cb k :: ('k, 'v) LRU) (Some k) now1 = Inl NilDeref \<and>
   Purge (afterSet sz t True k :: ('k, 'v) LRU) [Some k] = Inl NilDeref"
  by (simp add: Set_absent Set_nil_item Get_nil_item Peek_nil_item Remove_nil_item
      Contains_nil_item Purge_def entryOf_def NewLRU_def NoLimitTTL_def word_sle_eq)

text \<open>
  C3.  The claim: in every reachable state a key is in the index exactly when an entry
  with that key is in the recency list.  The state after one \<open>Set\<close> on a new cache is
  reachable, has the key in its index, and has no element in its list.
\<close>

theorem index_without_list_entry:
  "Set (NewLRU sz t cb :: ('k, 'v) LRU) (Some k) (Some v) now = Inr (afterSet sz t cb k) \<and>
   reachable (afterSet sz t cb k :: ('k, 'v) LRU) \<and>
   Some k \<in> dom (cache (afterSet sz t cb k :: ('k, 'v) LRU)) \<and>
   set (evictList (afterSet sz t cb k :: ('k, 'v) LRU)) = {}"
proof -
  have s: "Set (NewLRU sz t cb :: ('k, 'v) LRU) (Some k) (Some v) now = Inr (afterSet sz t cb k)"
    by (simp add: Set_absent)
  have "reachable (afterSet sz t cb k :: ('k, 'v) LRU)"
    by (rule r_set [OF r_new s])
  with s show ?thesis by simp
qed

text \<open>
  C4.  The claim's scenario: capacity 2, no TTL, \<open>Set(1, "a")\<close>, \<open>Set(2, "b")\<close>,
  \<open>Set(3, "c")\<close>.  The claim expects one callback call, \<open>Len() == 2\<close> and
  \<open>Contains(1) == false\<close>; the source makes no callback call, has \<open>Len() == 0\<close> and
  answers \<open>Contains(1)\<close> with true.
\<close>

theorem three_Sets_capacity_two:
  "Set (NewLRU 2 0 True :: (nat, string) LRU) (Some 1) (Some ''a'') t1 =
     Inr ((NewLRU 2 0 True)\<lparr> cache := [Some 1 \<mapsto> None] \<rparr>) \<and>
   Set ((NewLRU 2 0 True :: (nat, string) LRU)\<lparr> cache := [Some 1 \<mapsto> None] \<rparr>)
       (Some 2) (Some ''b'') t2 =
     Inr ((NewLRU 2 0 True)\<lparr> cache := [Some 1 \<mapsto> None, Some 2 \<mapsto> None] \<rparr>) \<and>
   Set ((NewLRU 2 0 True :: (nat, string) LRU)\<lparr> cache := [Some 1 \<mapsto> None, Some 2 \<mapsto> None] \<rparr>)
       (Some 3) (Some ''c'') t3 =
     Inr ((NewLRU 2 0 True)\<lparr> cache := [Some 1 \<mapsto> None, Some 2 \<mapsto> None, Some 3 \<mapsto> None] \<rparr>) \<and>
   evictions ((NewLRU 2 0 True :: (nat, string) LRU)
       \<lparr> cache := [Some 1 \<mapsto> None, Some 2 \<mapsto> None, Some 3 \<mapsto> None] \<rparr>) = [] \<and>
   Len ((NewLRU 2 0 True :: (nat, string) LRU)
       \<lparr> cache := [Some 1 \<mapsto> None, Some 2 \<mapsto> None, Some 3 \<mapsto> None] \<rparr>) = 0 \<and>
   Contains ((NewLRU 2 0 True :: (nat, string) LRU)
       \<lparr> cache := [Some 1 \<mapsto> None, Some 2 \<mapsto> None, Some 3 \<mapsto> None] \<rparr>) (Some 1) t4 = Inr True"
  by (simp add: Set_absent Contains_nil_item Len_def ListLen_def NewLRU_def NoLimitTTL_def)

text \<open>
  C6.  The claim: \<open>Peek\<close> of a present, unexpired key returns \<open>(value, true)\<close>.
  After \<open>Set\<close> on a new cache \<open>Peek\<close> of the key panics; only for a key that was
  never set do \<open>Get\<close> and \<open>Peek\<close> both return not-found.
\<close>

theorem Peek_after_Set_panics:
  "Set (NewLRU sz t cb :: ('k, 'v) LRU) (Some k) (Some v) now = Inr (afterSet sz t cb k) \<and>
   Peek (afterSet sz t cb k :: ('k, 'v) LRU) (Some k) now1 = Inl NilDeref \<and>
   Get (NewLRU sz t cb :: ('k, 'v) LRU) (Some k) now1 = Inr (NewLRU sz t cb, None, False) \<and>
   Peek (NewLRU sz t cb :: ('k, 'v) LRU) (Some k) now1 = Inr (None, False)"
proof -
  have "Get (NewLRU sz t cb :: ('k, 'v) LRU) (Some k) now1 = Inr (NewLRU sz t cb, None, False)"
    by (simp add: Get_def)
  moreover have "Peek (NewLRU sz t cb :: ('k, 'v) LRU) (Some k) now1 = Inr (None, False)"
    by (simp add: Peek_def)
  ultimately show ?thesis
    by (simp add: Set_absent Peek_nil_item)
qed

text \<open>
  Where an indexed key is expired, \<open>Peek\<close> returns the \<open>ok\<close> of the index lookup,
  true, and \<open>Get\<close> returns false.
\<close>

lemma Peek_expired_found:
  "cache c k = Some item \<Longrightarrow> expired c k now = Inr True \<Longrightarrow>
   Peek c k now = Inr (None, True) \<and> Get c k now = Inr (c, None, False)"
  by (simp add: Peek_def Get_def)

text \<open>
  C7.  The claim's scenario with a TTL of 10 ms (times in nanoseconds): an entry set at
  time 0 is found by \<open>Get\<close> at 5 ms, not found at 15 ms, and counted by \<open>Len()\<close>.
  In the source both calls of \<open>Get\<close> panic inside \<open>expired\<close>, and \<open>Len()\<close> is 0.
\<close>

theorem ttl_Get_panics:
  "ttl (NewLRU 0 10000000 False :: (string, nat) LRU) = 10000000 \<and>
   Set (NewLRU 0 10000000 False :: (string, nat) LRU) (Some ''x'') (Some 1) 0 =
     Inr ((NewLRU 0 10000000 False)\<lparr> cache := [Some ''x'' \<mapsto> None] \<rparr>) \<and>
   Get ((NewLRU 0 10000000 False :: (string, nat) LRU)\<lparr> cache := [Some ''x'' \<mapsto> None] \<rparr>)
       (Some ''x'') 5000000 = Inl NilDeref \<and>
   Get ((NewLRU 0 10000000 False :: (string, nat) LRU)\<lparr> cache := [Some ''x'' \<mapsto> None] \<rparr>)
       (Some ''x'') 15000000 = Inl NilDeref \<and>
   Len ((NewLRU 0 10000000 False :: (string, nat) LRU)\<lparr> cache := [Some ''x'' \<mapsto> None] \<rparr>) = 0"
  by (simp add: Set_absent Get_nil_item Len_def ListLen_def NewLRU_def NoLimitTTL_def word_sle_eq)

subsection \<open>Resize\<close>

text \<open>
  C5.  The claim: \<open>Resize\<close> returns the number of entries it evicted, 0 when no
  eviction is needed.  On a new cache \<open>Resize(-1)\<close> evicts nothing, since the list is
  empty, and returns 1; the capacity it stores is -1.
\<close>

theorem Resize_negative_on_new:
  "Resize (NewLRU sz t cb :: ('k, 'v) LRU) (- 1) = Inr ((NewLRU sz t cb)\<lparr> size' := - 1 \<rparr>, 1) \<and>
   evictions ((NewLRU sz t cb :: ('k, 'v) LRU)\<lparr> size' := - 1 \<rparr>) = [] \<and>
   Len (NewLRU sz t cb :: ('k, 'v) LRU) = 0"
  by (simp add: Resize_def Let_def Len_def ListLen_def removeOldestN_empty word_sless_alt)

text \<open>The loop of \<open>Resize\<close> on a list whose elements all hold entries.\<close>

lemma remove1_last: "distinct l \<Longrightarrow> l \<noteq> [] \<Longrightarrow> remove1 (last l) l = butlast l"
proof -
  assume d: "distinct l" and n: "l \<noteq> []"
  from n have l: "l = butlast l @ [last l]" by simp
  with d have "last l \<notin> set (butlast l)"
    by (metis distinct_append not_distinct_conv_prefix)
  then have "remove1 (last l) (butlast l @ [last l]) = butlast l"
    by (simp add: remove1_append)
  with l show ?thesis by simp
qed

lemma sint_of_nat_small: "n < 2 ^ 63 \<Longrightarrow> sint (of_nat n :: gint) = int n"
proof -
  assume n: "n < 2 ^ 63"
  have "sint (of_nat n :: gint) = sint (word_of_int (int n) :: gint)" by simp
  also have "\<dots> = signed_take_bit 63 (int n)" by (simp only: sint_sbintrunc') simp
  also have "\<dots> = int n"
  proof -
    from n have "int n < 2 ^ 63"
      by (metis of_nat_less_iff of_nat_numeral of_nat_power)
    then show ?thesis by (simp add: signed_take_bit_int_eq_self_iff)
  qed
  finally show ?thesis .
qed

lemma sint_Len: "length (evictList c) < 2 ^ 63 \<Longrightarrow> sint (Len c) = int (length (evictList c))"
  by (simp add: Len_def ListLen_def sint_of_nat_small)

lemma sint_Len_minus:
  assumes "length (evictList c) < 2 ^ 63"
    and "- (2 ^ 63) \<le> int (length (evictList c)) - sint sz"
    and "int (length (evictList c)) - sint sz < 2 ^ 63"
  shows "sint (Len c - sz) = int (length (evictList c)) - sint sz"
  using assms by (simp add: sint_word_diff sint_Len signed_take_bit_int_eq_self_iff)


lemma evictedPair_heap: "heap c1 = heap c \<Longrightarrow> evictedPair c1 = evictedPair c"
  by (simp add: evictedPair_def fun_eq_iff)

lemma removeOldest_step:
  assumes ok: "listOK c" and ne: "evictList c \<noteq> []"
  shows "removeOldest c =
    Inr (c\<lparr> evictList := butlast (evictList c),
            cache := (cache c)(fst (evictedPair c (last (evictList c))) := None),
            evictions :=
              (if onEvicted c then evictions c @ [evictedPair c (last (evictList c))]
               else evictions c) \<rparr>)"
proof -
  from ne have "last (evictList c) \<in> set (evictList c)" by simp
  with ok obtain kv where kv: "heap c (last (evictList c)) = Some kv"
    by (auto simp add: listOK_def)
  from ok ne have "remove1 (last (evictList c)) (evictList c) = butlast (evictList c)"
    by (simp add: listOK_def remove1_last)
  with ne kv show ?thesis
    by (simp add: removeOldest_def Back_def removeElement_def ListRemove_def entryOf_def
        evictedPair_def)
qed

lemma listOK_butlast:
  assumes "listOK c" and "evictList c1 = butlast (evictList c)" and "heap c1 = heap c"
  shows "listOK c1"
proof -
  from assms(1) have d: "distinct (butlast (evictList c))"
    by (simp add: listOK_def distinct_butlast)
  have "set (butlast (evictList c)) \<subseteq> set (evictList c)"
    by (auto dest: in_set_butlastD)
  with assms d show ?thesis
    by (auto simp add: listOK_def)
qed

lemma removeOldestN_listOK:
  "listOK c \<Longrightarrow>
   \<exists>c1. removeOldestN n c = Inr c1 \<and>
        evictList c1 = take (length (evictList c) - n) (evictList c) \<and>
        heap c1 = heap c \<and> size' c1 = size' c \<and> ttl c1 = ttl c \<and>
        onEvicted c1 = onEvicted c \<and>
        cache c1 =
          (\<lambda>k. if k \<in> fst ` evictedPair c ` set (take n (rev (evictList c))) then None
               else cache c k) \<and>
        evictions c1 =
          evictions c @
          (if onEvicted c then map (evictedPair c) (take n (rev (evictList c))) else [])"
proof (induction n arbitrary: c)
  case 0
  then show ?case by simp
next
  case (Suc n)
  show ?case
  proof (cases "evictList c = []")
    case True
    then have "removeOldestN (Suc n) c = Inr c" by (rule removeOldestN_empty)
    with True show ?thesis by simp
  next
    case False
    define c2 where "c2 = c\<lparr> evictList := butlast (evictList c),
            cache := (cache c)(fst (evictedPair c (last (evictList c))) := None),
            evictions :=
              (if onEvicted c then evictions c @ [evictedPair c (last (evictList c))]
               else evictions c) \<rparr>"
    from Suc.prems False have step: "removeOldest c = Inr c2"
      unfolding c2_def by (rule removeOldest_step)
    have f: "evictList c2 = butlast (evictList c)" "heap c2 = heap c" "size' c2 = size' c"
      "ttl c2 = ttl c" "onEvicted c2 = onEvicted c"
      "cache c2 = (cache c)(fst (evictedPair c (last (evictList c))) := None)"
      "evictions c2 = (if onEvicted c then evictions c @ [evictedPair c (last (evictList c))]
               else evictions c)"
      by (simp_all add: c2_def)
    from Suc.prems f(1,2) have "listOK c2" by (rule listOK_butlast)
    from Suc.IH [OF this] obtain c1 where
      r: "removeOldestN n c2 = Inr c1" and
      l: "evictList c1 = take (length (evictList c2) - n) (evictList c2)" and
      h: "heap c1 = heap c2" "size' c1 = size' c2" "ttl c1 = ttl c2"
         "onEvicted c1 = onEvicted c2" and
      m: "cache c1 =
          (\<lambda>k. if k \<in> fst ` evictedPair c2 ` set (take n (rev (evictList c2))) then None
               else cache c2 k)" and
      e: "evictions c1 = evictions c2 @
          (if onEvicted c2 then map (evictedPair c2) (take n (rev (evictList c2))) else [])"
      by blast
    from False have "length (evictList c) - Suc n < length (evictList c)"
      by (cases "evictList c") simp_all
    then have t: "take (length (evictList c) - Suc n) (butlast (evictList c)) =
      take (length (evictList c) - Suc n) (evictList c)"
      by (rule take_butlast)
    from False have rv: "rev (evictList c) = last (evictList c) # rev (butlast (evictList c))"
      by (metis append_butlast_last_id rev.simps(2) rev_rev_ident rev_singleton_conv rev_append append_Cons append_Nil)
    have tk: "take (Suc n) (rev (evictList c)) =
        last (evictList c) # take n (rev (butlast (evictList c)))"
      by (subst rv) simp
    from f(2) have ep: "evictedPair c2 = evictedPair c" by (rule evictedPair_heap)
    from step r have "removeOldestN (Suc n) c = Inr c1" by simp
    moreover from l f(1) t have "evictList c1 = take (length (evictList c) - Suc n) (evictList c)"
      by simp
    moreover from e f ep have "evictions c1 = evictions c @
          (if onEvicted c then map (evictedPair c) (take (Suc n) (rev (evictList c))) else [])"
      by (simp add: tk)
    moreover from m f ep have "cache c1 =
          (\<lambda>k. if k \<in> fst ` evictedPair c ` set (take (Suc n) (rev (evictList c))) then None
               else cache c k)"
      by (auto simp add: tk fun_eq_iff)
    ultimately show ?thesis using h f by simp
  qed
qed

text \<open>
  For a positive size \<open>Resize\<close> keeps the \<open>sz\<close> elements nearest the front, calls the
  callback for the others from the back, and returns how many those were.
\<close>

lemma Resize_positive:
  assumes ok: "listOK c" and pos: "0 <s sz"
  shows "\<exists>c1 n. Resize c sz = Inr (c1, n) \<and>
      sint n = int (length (evictList c) - nat (sint sz)) \<and>
      evictList c1 = take (nat (sint sz)) (evictList c) \<and>
      evictions c1 =
        evictions c @
        (if onEvicted c
         then map (evictedPair c) (take (length (evictList c) - nat (sint sz)) (rev (evictList c)))
         else []) \<and>
      size' c1 = sz"
proof -
  let ?l = "evictList c"
  from ok have len: "length ?l < 2 ^ 63" by (simp add: listOK_def)
  from pos have sp: "0 < sint sz" by (simp add: word_sless_alt)
  have "sint sz < 2 ^ 63" using sint_lt [of sz] by simp
  with sp have low: "- (2 ^ 63) \<le> int (length ?l) - sint sz" by simp
  from len have "int (length ?l) < 2 ^ 63"
    by (metis of_nat_less_iff of_nat_numeral of_nat_power)
  with sp have up: "int (length ?l) - sint sz < 2 ^ 63" by simp
  from len low up have d: "sint (Len c - sz) = int (length ?l) - sint sz"
    by (rule sint_Len_minus)
  show ?thesis
  proof (cases "int (length ?l) < sint sz")
    case True
    with d have "Len c - sz <s 0" by (simp add: word_sless_alt)
    then have "Resize c sz = Inr (c\<lparr> size' := sz \<rparr>, 0)"
      by (simp add: Resize_def Let_def)
    moreover from True have "length ?l - nat (sint sz) = 0" by simp
    moreover from True have "take (nat (sint sz)) ?l = ?l" by simp
    ultimately show ?thesis by simp
  next
    case False
    with d have nn: "\<not> Len c - sz <s 0" by (simp add: word_sless_alt)
    from False d sp have n: "nat (sint (Len c - sz)) = length ?l - nat (sint sz)"
      by simp
    from removeOldestN_listOK [OF ok, of "length ?l - nat (sint sz)"] obtain c2 where
      r: "removeOldestN (length ?l - nat (sint sz)) c = Inr c2" and
      l: "evictList c2 = take (length ?l - (length ?l - nat (sint sz))) ?l" and
      e: "evictions c2 = evictions c @
          (if onEvicted c
           then map (evictedPair c) (take (length ?l - nat (sint sz)) (rev ?l))
           else [])"
      by blast
    from False sp have "length ?l - (length ?l - nat (sint sz)) = nat (sint sz)" by simp
    with l have l2: "evictList c2 = take (nat (sint sz)) ?l" by simp
    from nn r n have "Resize c sz = Inr (c2\<lparr> size' := sz \<rparr>, Len c - sz)"
      by (simp add: Resize_def Let_def)
    moreover from d False sp have "sint (Len c - sz) = int (length ?l - nat (sint sz))"
      by simp
    ultimately show ?thesis using l2 e by simp
  qed
qed

lemma overSize_negative:
  "size' c <s 0 \<Longrightarrow> length (evictList c) < 2 ^ 63 \<Longrightarrow> overSize c"
proof -
  assume n: "size' c <s 0" and l: "length (evictList c) < 2 ^ 63"
  from n have "size' c \<noteq> 0" by (auto simp add: word_sless_alt)
  moreover from n l have "size' c <s Len c"
    by (simp add: word_sless_alt sint_Len)
  ultimately show ?thesis by (simp add: overSize_def NoLimitSize_def)
qed

lemma listOK_linkedExample: "listOK linkedExample"
  by (simp add: listOK_def linkedExample_def)

lemma listOK_NewLRU: "listOK (NewLRU sz t cb)"
  by (simp add: listOK_def)

text \<open>
  C10, as amended.  For every state whose linked elements hold entries and every
  negative \<open>sz\<close> for which \<open>Len() - sz\<close> does not overflow the 64-bit \<open>int\<close>,
  \<open>Resize(sz)\<close> returns \<open>Len() - sz\<close>, which is more than the number of entries it
  removed (all \<open>Len()\<close> of them: the list is empty afterwards, and the callback, when
  there is one, was called for each from the back to the front); the capacity it stores
  is \<open>sz\<close> itself, not normalized, and the capacity test of \<open>Set\<close> holds in the state
  it leaves.
\<close>

theorem Resize_negative:
  assumes ok: "listOK c" and neg: "sz <s 0"
    and nov: "int (length (evictList c)) - sint sz < 2 ^ 63"
  shows "\<exists>c1. Resize c sz = Inr (c1, Len c - sz) \<and>
      sint (Len c - sz) = int (length (evictList c)) - sint sz \<and>
      int (length (evictList c)) < sint (Len c - sz) \<and>
      evictList c1 = [] \<and>
      evictions c1 =
        evictions c @ (if onEvicted c then map (evictedPair c) (rev (evictList c)) else []) \<and>
      size' c1 = sz \<and> overSize c1"
proof -
  let ?l = "evictList c"
  from ok have len: "length ?l < 2 ^ 63" by (simp add: listOK_def)
  from neg have sneg: "sint sz < 0" by (simp add: word_sless_alt)
  then have low: "- (2 ^ 63) \<le> int (length ?l) - sint sz" by simp
  from len low nov have d: "sint (Len c - sz) = int (length ?l) - sint sz"
    by (rule sint_Len_minus)
  with sneg have big: "int (length ?l) < sint (Len c - sz)" by simp
  then have pos: "\<not> Len c - sz <s 0" by (simp add: word_sless_alt)
  from big have n: "length ?l \<le> nat (sint (Len c - sz))" by simp
  from removeOldestN_listOK [OF ok, of "nat (sint (Len c - sz))"] obtain c2 where
    r: "removeOldestN (nat (sint (Len c - sz))) c = Inr c2" and
    l: "evictList c2 = take (length ?l - nat (sint (Len c - sz))) ?l" and
    e: "evictions c2 = evictions c @
          (if onEvicted c then map (evictedPair c) (take (nat (sint (Len c - sz))) (rev ?l))
           else [])"
    by blast
  from l n have l2: "evictList c2 = []" by simp
  from e n have e2: "evictions c2 =
      evictions c @ (if onEvicted c then map (evictedPair c) (rev ?l) else [])"
    by simp
  from pos r have res: "Resize c sz = Inr (c2\<lparr> size' := sz \<rparr>, Len c - sz)"
    by (simp add: Resize_def Let_def)
  from neg l2 have "overSize (c2\<lparr> size' := sz \<rparr>)"
    by (simp add: overSize_negative)
  with res d big l2 e2 show ?thesis by simp
qed

theorem Resize_negative_witness:
  "(\<exists>c1. Resize linkedExample (- 1) = Inr (c1, 4) \<and> evictList c1 = [] \<and>
      evictions c1 = [(Some 1, Some ''a''), (Some 2, Some ''b''), (Some 3, Some ''c'')] \<and>
      size' c1 = - 1 \<and> overSize c1) \<and>
   (\<exists>c1. Resize (NewLRU 2 0 True :: (nat, string) LRU) (- 1) = Inr (c1, 1) \<and> evictList c1 = [] \<and>
      evictions c1 = [] \<and> size' c1 = - 1 \<and> overSize c1)"
proof -
  have neg: "(- 1 :: gint) <s 0" by (simp add: word_sless_alt)
  have "int (length (evictList linkedExample)) - sint (- 1 :: gint) < 2 ^ 63"
    by (simp add: linkedExample_def)
  from Resize_negative [OF listOK_linkedExample neg this]
  have a: "\<exists>c1. Resize linkedExample (- 1) = Inr (c1, 4) \<and> evictList c1 = [] \<and>
      evictions c1 = [(Some 1, Some ''a''), (Some 2, Some ''b''), (Some 3, Some ''c'')] \<and>
      size' c1 = - 1 \<and> overSize c1"
    by (simp add: linkedExample_def Len_def ListLen_def evictedPair_def)
  have "int (length (evictList (NewLRU 2 0 True :: (nat, string) LRU))) - sint (- 1 :: gint) < 2 ^ 63"
    by simp
  from Resize_negative [OF listOK_NewLRU neg this]
  have b: "\<exists>c1. Resize (NewLRU 2 0 True :: (nat, string) LRU) (- 1) = Inr (c1, 1) \<and> evictList c1 = [] \<and>
      evictions c1 = [] \<and> size' c1 = - 1 \<and> overSize c1"
    by (simp add: Len_def ListLen_def)
  from a b show ?thesis by (rule conjI)
qed

text \<open>
  The claim as stated, for every negative \<open>sz\<close>, fails at the least \<open>int\<close>: on a new
  cache \<open>Len() - sz\<close> wraps to a negative number, the source sets \<open>diff\<close> to 0 and
  returns 0, which is neither \<open>Len() - sz\<close> nor more than the number of entries removed.
\<close>

theorem Resize_min_int_counterexample:
  "(- (2 ^ 63) :: gint) <s 0 \<and>
   Resize (NewLRU 2 0 True :: (nat, string) LRU) (- (2 ^ 63)) =
     Inr ((NewLRU 2 0 True)\<lparr> size' := - (2 ^ 63) \<rparr>, 0) \<and>
   Len (NewLRU 2 0 True :: (nat, string) LRU) - (- (2 ^ 63)) \<noteq> 0 \<and>
   int (length (evictList (NewLRU 2 0 True :: (nat, string) LRU))) - sint (- (2 ^ 63) :: gint) = 2 ^ 63"
  by (simp add: Resize_def Let_def Len_def ListLen_def removeOldestN_empty word_sless_alt)

subsection \<open>Keys\<close>

lemma expired_linked:
  "heap c a = Some kv \<Longrightarrow> cache c (key kv) = Some (Some a) \<Longrightarrow>
   expired c (key kv) now = Inr (stale c now kv)"
  by (simp add: expired_def entryOf_def stale_def)

lemma keysLoop_linked:
  "list_all2 (\<lambda>a kv. heap c a = Some kv \<and> cache c (key kv) = Some (Some a)) as es \<Longrightarrow>
   keysLoop c now as acc = Inr (acc @ map key (takeWhile (\<lambda>kv. \<not> stale c now kv) es))"
proof (induction as es arbitrary: acc rule: list_all2_induct)
  case Nil
  show ?case by simp
next
  case (Cons a as kv es)
  from Cons.hyps(1) have e: "entryOf c (Some a) = Inr kv"
    by (simp add: entryOf_def)
  from Cons.hyps(1) have x: "expired c (key kv) now = Inr (stale c now kv)"
    by (blast intro: expired_linked)
  show ?case
  proof (cases "stale c now kv")
    case True
    with e x show ?thesis by simp
  next
    case False
    with e x Cons.IH [of "acc @ [key kv]"] show ?thesis by simp
  qed
qed

lemma linkedEntries_linkedExample:
  "linkedEntries linkedExample
     [\<lparr> key = Some 3, value' = Some ''c'', updatedAt = 45 \<rparr>,
      \<lparr> key = Some 2, value' = Some ''b'', updatedAt = 0 \<rparr>,
      \<lparr> key = Some 1, value' = Some ''a'', updatedAt = 40 \<rparr>]"
  by (simp add: linkedEntries_def linkedExample_def)

text \<open>
  The loop of \<open>Keys\<close> on a list of linked entries \<open>es\<close> (front first), each indexed
  under its key: it walks from the back toward the front and returns the keys of the
  entries before the first expired one, oldest first; with no expired entry it returns
  every key of the list.  In a reachable state the only such \<open>es\<close> is the empty list.
\<close>

lemma Keys_back_to_front:
  assumes "linkedEntries c es"
  shows "Keys c now = Inr (map key (takeWhile (\<lambda>kv. \<not> stale c now kv) (rev es))) \<and>
    ((\<forall>kv \<in> set es. \<not> stale c now kv) \<longrightarrow> Keys c now = Inr (map key (rev es)))"
proof -
  from assms have
    "list_all2 (\<lambda>a kv. heap c a = Some kv \<and> cache c (key kv) = Some (Some a))
       (rev (evictList c)) (rev es)"
    by (simp add: linkedEntries_def list_all2_rev)
  then have "keysLoop c now (rev (evictList c)) [] =
      Inr ([] @ map key (takeWhile (\<lambda>kv. \<not> stale c now kv) (rev es)))"
    by (rule keysLoop_linked)
  then have k: "Keys c now = Inr (map key (takeWhile (\<lambda>kv. \<not> stale c now kv) (rev es)))"
    by (simp add: Keys_def keysLoop_linked)
  show ?thesis
  proof (intro conjI impI)
    show "Keys c now = Inr (map key (takeWhile (\<lambda>kv. \<not> stale c now kv) (rev es)))"
      by (rule k)
  next
    assume "\<forall>kv \<in> set es. \<not> stale c now kv"
    then have "takeWhile (\<lambda>kv. \<not> stale c now kv) (rev es) = rev es"
      by (simp add: takeWhile_eq_all_conv)
    with k show "Keys c now = Inr (map key (rev es))" by simp
  qed
qed

lemma Keys_back_to_front_example:
  "Keys linkedExample 60 = Inr [Some 1] \<and>
   Keys linkedExample 45 = Inr [Some 1, Some 2, Some 3] \<and>
   \<not> stale linkedExample 60 \<lparr> key = Some 3, value' = Some ''c'', updatedAt = 45 \<rparr> \<and>
   Keys (afterSet 2 0 True 1 :: (nat, string) LRU) 60 = Inr []"
proof -
  have "linkedEntries (afterSet 2 0 True 1 :: (nat, string) LRU) []"
    by (simp add: linkedEntries_def)
  from Keys_back_to_front [OF linkedEntries_linkedExample, of 60]
    Keys_back_to_front [OF linkedEntries_linkedExample, of 45]
    Keys_back_to_front [OF this, of 60]
  show ?thesis
    by (simp add: stale_def Since_def linkedExample_def NoLimitTTL_def)
qed

text \<open>
  C8.  The claim: \<open>Keys()\<close> returns the keys oldest first, and with no expired entry
  it returns every key.  After \<open>Set\<close> of a key on a new cache without TTL the state is
  reachable, nothing can be expired and \<open>Contains\<close> answers true for the key, yet the
  list that \<open>Keys\<close> walks is empty and \<open>Keys()\<close> returns no key.
\<close>

theorem Keys_after_Set_empty:
  "Set (NewLRU sz 0 cb :: ('k, 'v) LRU) (Some k) (Some v) now = Inr (afterSet sz 0 cb k) \<and>
   reachable (afterSet sz 0 cb k :: ('k, 'v) LRU) \<and>
   expired (afterSet sz 0 cb k :: ('k, 'v) LRU) (Some k) now1 = Inr False \<and>
   Contains (afterSet sz 0 cb k :: ('k, 'v) LRU) (Some k) now1 = Inr True \<and>
   Keys (afterSet sz 0 cb k :: ('k, 'v) LRU) now1 = Inr []"
proof -
  have s: "Set (NewLRU sz 0 cb :: ('k, 'v) LRU) (Some k) (Some v) now = Inr (afterSet sz 0 cb k)"
    by (simp add: Set_absent)
  have r: "reachable (afterSet sz 0 cb k :: ('k, 'v) LRU)"
    by (rule r_set [OF r_new s])
  have t: "ttl (afterSet sz 0 cb k :: ('k, 'v) LRU) = NoLimitTTL"
    by (simp add: NewLRU_def NoLimitTTL_def word_sle_eq)
  then have x: "expired (afterSet sz 0 cb k :: ('k, 'v) LRU) (Some k) now1 = Inr False"
    by (simp add: expired_def)
  from t have c: "Contains (afterSet sz 0 cb k :: ('k, 'v) LRU) (Some k) now1 = Inr True"
    by (simp add: Contains_nil_item)
  have "Keys (afterSet sz 0 cb k :: ('k, 'v) LRU) now1 = Inr []"
    by (simp add: Keys_def)
  with s r x c show ?thesis by simp
qed

end
